theory Spec2Isabelle
  imports Main "HOL-Library.Word"
begin

section \<open>Machine integers and errors\<close>

type_synonym int64 = "64 word"
type_synonym int32 = "32 word"

text \<open>
  Every error return and every run-time panic of the modelled functions is a value.
  \<open>TooLargeItem n max\<close> is the error of \<open>Memory.Push\<close>; \<open>SliceBounds n len\<close> is the
  panic of the slice expression \<open>chunk.Items[n:]\<close> when \<open>n\<close> is outside \<open>0..len\<close>;
  \<open>WriteError\<close> stands for any non-nil error returned by a handler.
\<close>

datatype error =
    TooLargeItem int64 int64
  | SliceBounds int nat
  | WriteError string
  | NoSuchBuffer string
  | BadRegexp string
  | TypeAssertion string

section \<open>Package buffer\<close>

subsection \<open>Items and chunks\<close>

text \<open>
  The two implementations of the interface \<open>Sizer\<close> in the package; \<open>Size()\<close> is
  \<open>int64(len(s))\<close> for both.
\<close>

datatype Sizer = StringItem string | BytesItem "8 word list"

fun Sizer_Size :: "Sizer \<Rightarrow> int64" where
  "Sizer_Size (StringItem s) = word_of_nat (length s)"
| "Sizer_Size (BytesItem s) = word_of_nat (length s)"

record MemoryChunk =
  Size :: int64
  Items :: "Sizer list"

definition empty_chunk :: MemoryChunk where
  "empty_chunk = \<lparr>Size = 0, Items = []\<rparr>"

text \<open>\<open>MemoryChunk.Push\<close>: \<open>m.Size += s.Size(); m.Items = append(m.Items, s)\<close>.\<close>

definition MemoryChunk_Push :: "Sizer \<Rightarrow> MemoryChunk \<Rightarrow> MemoryChunk" where
  "MemoryChunk_Push s c = c\<lparr>Size := Size c + Sizer_Size s, Items := Items c @ [s]\<rparr>"

subsection \<open>The memory buffer\<close>

text \<open>
  The chunk queue (a \<open>container/list\<close>) is a list whose first element is \<open>Front()\<close>,
  the head chunk that accepts pushes, and whose last element is \<open>Back()\<close>, the tail.
  The handler is an object with state of its own, of type \<open>'h\<close>; its method \<open>Write\<close>
  is passed to the operations that call it, as a function from the handler's state and
  the presented items to the pair \<open>(n, err)\<close> and the handler's next state. The
  unbuffered channel \<open>eventCh\<close> is kept as the number of values sent on it.
\<close>

record 'h Memory =
  chunks :: "MemoryChunk list"
  maxChunkSize :: int64
  maxQueueSize :: int64
  handler :: 'h
  eventCh :: nat
  closed :: bool

type_synonym 'h Write = "'h \<Rightarrow> Sizer list \<Rightarrow> (int \<times> error option) \<times> 'h"

text \<open>
  \<open>NewMemory\<close> takes the two sizes from the options (the type \<open>Options\<close> is declared
  outside the modelled files, so its two fields are arguments here).
\<close>

definition NewMemory :: "int64 \<Rightarrow> int64 \<Rightarrow> 'h \<Rightarrow> 'h Memory" where
  "NewMemory optMaxChunkSize optMaxQueueSize h =
     \<lparr>chunks = [], maxChunkSize = optMaxChunkSize, maxQueueSize = optMaxQueueSize,
      handler = h, eventCh = 0, closed = False\<rparr>"

text \<open>
  The branch of \<open>Push\<close> that allocates a new head: \<open>PushFront(&MemoryChunk{})\<close>, then
  \<open>Remove(Back())\<close> when the length exceeds \<open>maxQueueSize\<close>, then
  \<open>e.Value.(*MemoryChunk).Push(s)\<close> on the element \<open>e\<close> returned by \<open>PushFront\<close>.
  When the new element was itself the one removed (the queue had no other element),
  \<open>e\<close> is no longer in the list and the item goes to a chunk nobody reaches: the queue
  stays empty. \<open>Push\<close> returns its error, \<open>None\<close> for \<open>nil\<close>, and the buffer as the
  call leaves it.
\<close>

definition push_front_evict :: "Sizer \<Rightarrow> 'h Memory \<Rightarrow> 'h Memory" where
  "push_front_evict s m =
     (let q = empty_chunk # chunks m;
          q' = (if sint (maxQueueSize m) < int (length q) then butlast q else q)
      in m\<lparr>chunks := (case q' of [] \<Rightarrow> [] | e # rest \<Rightarrow> MemoryChunk_Push s e # rest)\<rparr>)"

definition Push :: "Sizer \<Rightarrow> 'h Memory \<Rightarrow> error option \<times> 'h Memory" where
  "Push s m =
     (let n = Sizer_Size s in
      if maxChunkSize m <s n then (Some (TooLargeItem n (maxChunkSize m)), m)
      else (case chunks m of
              [] \<Rightarrow> (None, push_front_evict s m)
            | e # rest \<Rightarrow>
                if maxChunkSize m <s Size e + n
                then (None, push_front_evict s (m\<lparr>eventCh := eventCh m + 1\<rparr>))
                else (None, m\<lparr>chunks := MemoryChunk_Push s e # rest\<rparr>)))"

text \<open>A sequence of calls of \<open>Push\<close>, whatever each of them returns.\<close>

fun pushes :: "'h Memory \<Rightarrow> Sizer list \<Rightarrow> 'h Memory" where
  "pushes m [] = m"
| "pushes m (s # ss) = pushes (snd (Push s m)) ss"

text \<open>
  The built-in \<open>copy(dst, src)\<close> copies \<open>min(len(dst), len(src))\<close> elements to the
  front of \<open>dst\<close> and leaves the length of \<open>dst\<close> as it is.
\<close>

definition copy_slice :: "'a list \<Rightarrow> 'a list \<Rightarrow> 'a list" where
  "copy_slice dst src = take (length dst) src @ drop (length src) dst"

text \<open>
  One iteration of the loop of \<open>pop\<close> after it has been woken: with no chunk it does
  nothing; otherwise it hands the items of \<open>Back()\<close> to the handler, removes the chunk
  when the handler returns no error, and on error executes
  \<open>copy(chunk.Items, chunk.Items[n:])\<close>.
\<close>

definition pop_iter :: "'h Write \<Rightarrow> 'h Memory \<Rightarrow> error + 'h Memory" where
  "pop_iter W m =
     (if chunks m = [] then Inr m
      else
        (let chunk = last (chunks m);
             r = W (handler m) (Items chunk);
             n = fst (fst r);
             err = snd (fst r);
             m' = m\<lparr>handler := snd r\<rparr>
         in if err \<noteq> None
            then (if n < 0 \<or> int (length (Items chunk)) < n
                  then Inl (SliceBounds n (length (Items chunk)))
                  else Inr (m'\<lparr>chunks := butlast (chunks m) @
                         [chunk\<lparr>Items := copy_slice (Items chunk) (drop (nat n) (Items chunk))\<rparr>]\<rparr>))
            else Inr (m'\<lparr>chunks := butlast (chunks m)\<rparr>)))"

text \<open>
  \<open>Close\<close>: sets \<open>closed\<close>, then walks the list with \<open>for e := Front(); e != nil;
  e = e.Next()\<close>, calling \<open>handler.Write\<close> on each chunk's items and dropping what it
  returns, then \<open>chunks.Init()\<close>.
\<close>

fun write_each :: "'h Write \<Rightarrow> 'h \<Rightarrow> MemoryChunk list \<Rightarrow> 'h" where
  "write_each W h [] = h"
| "write_each W h (c # cs) = write_each W (snd (W h (Items c))) cs"

definition Close :: "'h Write \<Rightarrow> 'h Memory \<Rightarrow> 'h Memory" where
  "Close W m = m\<lparr>closed := True, handler := write_each W (handler m) (chunks m), chunks := []\<rparr>"

subsection \<open>A recording handler\<close>

text \<open>
  A handler for concrete runs: its state is the list of item lists it has been handed
  so far, and it answers every \<open>Write\<close> with the fixed pair \<open>(n, err)\<close>.
\<close>

definition recording :: "int \<Rightarrow> error option \<Rightarrow> (Sizer list list) Write" where
  "recording n err h items = ((n, err), h @ [items])"

subsection \<open>Properties of a buffer\<close>

text \<open>
  The two bounds of a buffer: the queue holds at most \<open>maxQueueSize\<close> chunks and the
  field \<open>Size\<close> of every chunk in it is at most \<open>maxChunkSize\<close> (both compared as signed
  64-bit integers, as the code does).
\<close>

definition buffer_inv :: "'h Memory \<Rightarrow> bool" where
  "buffer_inv m \<longleftrightarrow>
     int (length (chunks m)) \<le> sint (maxQueueSize m) \<and>
     list_all (\<lambda>c. Size c \<le>s maxChunkSize m) (chunks m)"





text \<open>
  What retiring the head looks like from outside, between the buffer \<open>m\<close> before a
  push of \<open>s\<close> and the buffer \<open>m'\<close> after it: the flusher has been signalled and the
  item is alone in the chunk at the front.
\<close>

definition head_retired :: "Sizer \<Rightarrow> 'h Memory \<Rightarrow> 'h Memory \<Rightarrow> bool" where
  "head_retired s m m' \<longleftrightarrow>
     eventCh m' = eventCh m + 1 \<and>
     (case chunks m' of [] \<Rightarrow> False | e # rest \<Rightarrow> Items e = [s])"

definition five :: "Sizer list" where
  "five = [StringItem ''a'', StringItem ''b'', StringItem ''c'', StringItem ''d'',
           StringItem ''e'']"


section \<open>Package engine\<close>

subsection \<open>Configuration values, events and the library\<close>

text \<open>
  A configuration is a \<open>map[string]interface{}\<close>. The engine only asks whether a value
  is a string, with the type assertion \<open>conf[k].(string)\<close>: in its one-result form it
  panics on a missing key and on a value of another type, in its two-result form
  (\<open>conf["buffer"]\<close>) it reports \<open>ok = false\<close>.
\<close>

datatype iface = IString string | IInt int | IBool bool

type_synonym conf = "string \<rightharpoonup> iface"

definition assert_string :: "conf \<Rightarrow> string \<Rightarrow> error + string" where
  "assert_string c k = (case c k of Some (IString v) \<Rightarrow> Inr v | _ \<Rightarrow> Inl (TypeAssertion k))"

text \<open>
  Modelled from the spec: the type \<open>message.Event\<close> is declared outside the modelled
  files; an event is the triple of tag, time and record of the data model, and the
  engine reads its tag only.
\<close>

record Event =
  Tag :: string
  Time :: int
  Record :: "(string \<times> iface) list"

text \<open>
  What the engine takes from outside the repository and from declarations outside the
  modelled files: the standard library's \<open>regexp.Compile\<close> and \<open>MatchString\<close> over
  compiled expressions of type \<open>'re\<close>, and the table \<open>plugin.EmbeddedPlugins\<close>, of which
  the engine asks only whether a name is in it.
\<close>

record 're Lib =
  regexp_Compile :: "string \<Rightarrow> error + 're"
  regexp_MatchString :: "'re \<Rightarrow> string \<Rightarrow> bool"
  EmbeddedPlugins :: "string \<Rightarrow> bool"

subsection \<open>Buffer options, tag routers, units and instances\<close>

text \<open>
  Modelled from the spec: the type \<open>buffer.Options\<close> and its method \<open>SetDefault\<close> are
  declared outside the modelled files. The options are the record \<open>{name,
  max_chunk_size, max_queue_size, flush_interval}\<close>; a field left at zero takes its
  default: 8 MiB, 256 chunks, 60 s (in nanoseconds).
\<close>

record Options =
  Name :: string
  MaxChunkSize :: int64
  MaxQueueSize :: int64
  FlushInterval :: int64

definition SetDefault :: "Options \<Rightarrow> Options" where
  "SetDefault opts = opts
     \<lparr>MaxChunkSize := (if MaxChunkSize opts = 0 then 8388608 else MaxChunkSize opts),
      MaxQueueSize := (if MaxQueueSize opts = 0 then 256 else MaxQueueSize opts),
      FlushInterval := (if FlushInterval opts = 0 then 60000000000 else FlushInterval opts)\<rparr>"

text \<open>
  Modelled from the spec: the type \<open>TagRouter\<close> with its methods \<open>Add\<close> and \<open>Route\<close> is
  declared outside the modelled files. A router is an ordered list of pairs of a
  pattern and an exec unit; \<open>Add\<close> appends; \<open>Route\<close> scans in insertion order and
  returns the first unit whose pattern matches the tag, and nothing when no pattern
  matches. A unit is referred to by its position in the engine's list \<open>units\<close>, which
  only ever grows at its end: the position is the pointer \<open>*ExecUnit\<close>.
\<close>

type_synonym 're TagRouter = "('re \<times> nat) list"

definition TagRouter_Add :: "'re \<Rightarrow> nat \<Rightarrow> 're TagRouter \<Rightarrow> 're TagRouter" where
  "TagRouter_Add re unit r = r @ [(re, unit)]"

fun Route :: "'re Lib \<Rightarrow> 're TagRouter \<Rightarrow> string \<Rightarrow> nat option" where
  "Route L [] tag = None"
| "Route L ((re, unit) # r) tag =
     (if regexp_MatchString L re tag then Some unit else Route L r tag)"

text \<open>
  Modelled from the spec: the types \<open>ExecUnit\<close> and \<open>Instance\<close> and the method
  \<open>Instance.AddExecUnit\<close> are declared outside the modelled files. An exec unit has its
  id, its configuration, its buffer options (outputs only) and an attached router, empty
  when the unit is created; a plugin instance has its name and the units it hosts, and
  \<open>AddExecUnit\<close> attaches a new unit to it.
\<close>

record 're ExecUnit =
  ID :: int32
  Conf :: conf
  BufferOptions :: "Options option"
  Router :: "'re TagRouter"

record Instance =
  ins_name :: string
  ins_units :: "nat list"

definition NewInstance :: "string \<Rightarrow> Instance" where
  "NewInstance name = \<lparr>ins_name = name, ins_units = []\<rparr>"

subsection \<open>The engine\<close>

text \<open>
  The fields of \<open>Engine\<close> that registration and routing use. The three Go maps are
  partial functions. The process manager \<open>pm\<close> is kept as the list of the names of the
  processes added to it, \<open>embeds\<close> as the list of the names of the embedded instances
  (each name is the key of its instance in \<open>plugins\<close>), \<open>filters\<close> as the list of the
  positions of the filter units.
\<close>

record 're Engine =
  pm :: "string list"
  plugins :: "string \<rightharpoonup> Instance"
  embeds :: "string list"
  units :: "'re ExecUnit list"
  filters :: "nat list"
  tr :: "string \<rightharpoonup> 're TagRouter"
  ftr :: "'re TagRouter"
  bufs :: "string \<rightharpoonup> Options"
  unitID :: int32

definition New :: "'re Engine" where
  "New = \<lparr>pm = [], plugins = Map.empty, embeds = [], units = [], filters = [],
          tr = Map.empty, ftr = [],
          bufs = [''default'' \<mapsto>
            SetDefault \<lparr>Name = [], MaxChunkSize = 0, MaxQueueSize = 0, FlushInterval = 0\<rparr>],
          unitID = 0\<rparr>"

definition RegisterBuffer :: "Options \<Rightarrow> 're Engine \<Rightarrow> 're Engine" where
  "RegisterBuffer opts e = e\<lparr>bufs := (bufs e)(Name opts \<mapsto> SetDefault opts)\<rparr>"

text \<open>
  \<open>pluginInstance\<close> returns the instance registered under the name, creating it (and
  adding it to \<open>embeds\<close> or to the process manager) when there is none. The instance
  returned is the one under \<open>name\<close> in \<open>plugins\<close> of the engine returned.
\<close>

definition pluginInstance :: "'re Lib \<Rightarrow> string \<Rightarrow> 're Engine \<Rightarrow> 're Engine" where
  "pluginInstance L name e =
     (case plugins e name of
        Some ins \<Rightarrow> e
      | None \<Rightarrow>
          (let e1 = e\<lparr>plugins := (plugins e)(name \<mapsto> NewInstance name)\<rparr>
           in if EmbeddedPlugins L name
              then e1\<lparr>embeds := embeds e1 @ [name]\<rparr>
              else e1\<lparr>pm := pm e1 @ [''fluxion-'' @ name]\<rparr>))"

text \<open>
  \<open>addExecUnit\<close>: \<open>atomic.AddInt32(&e.unitID, 1)\<close> adds one to the 32-bit counter and
  gives the new value, which is the id of the unit; the unit is attached to the
  instance named \<open>ins\<close> and appended to \<open>units\<close>. The result is the position of the
  new unit and the engine.
\<close>

definition addExecUnit ::
  "string \<Rightarrow> conf \<Rightarrow> Options option \<Rightarrow> 're Engine \<Rightarrow> nat \<times> 're Engine" where
  "addExecUnit ins c bopts e =
     (let newID = unitID e + 1;
          unit = length (units e)
      in (unit,
          e\<lparr>unitID := newID,
            plugins := (case plugins e ins of
                          None \<Rightarrow> plugins e
                        | Some i \<Rightarrow> (plugins e)(ins \<mapsto> i\<lparr>ins_units := ins_units i @ [unit]\<rparr>)),
            units := units e @ [\<lparr>ID = newID, Conf = c, BufferOptions = bopts, Router = []\<rparr>]\<rparr>))"

text \<open>
  The registration functions return their error (\<open>None\<close> for \<open>nil\<close>; a failed type
  assertion is the panic \<open>TypeAssertion\<close>) and the engine as the call leaves it.
\<close>

definition RegisterInputPlugin :: "'re Lib \<Rightarrow> conf \<Rightarrow> 're Engine \<Rightarrow> error option \<times> 're Engine" where
  "RegisterInputPlugin L c e =
     (case assert_string c ''type'' of
        Inl panic \<Rightarrow> (Some panic, e)
      | Inr t \<Rightarrow>
          (None, snd (addExecUnit (''in-'' @ t) c None (pluginInstance L (''in-'' @ t) e))))"

definition RegisterOutputPlugin ::
  "'re Lib \<Rightarrow> string \<Rightarrow> conf \<Rightarrow> 're Engine \<Rightarrow> error option \<times> 're Engine" where
  "RegisterOutputPlugin L name c e =
     (let bufName = (case c ''buffer'' of Some (IString n) \<Rightarrow> n | _ \<Rightarrow> ''default'') in
      case bufs e bufName of
        None \<Rightarrow> (Some (NoSuchBuffer bufName), e)
      | Some buf \<Rightarrow>
          (case assert_string c ''type'' of
             Inl panic \<Rightarrow> (Some panic, e)
           | Inr t \<Rightarrow>
               (let e1 = pluginInstance L (''out-'' @ t) e;
                    added = addExecUnit (''out-'' @ t) c (Some buf) e1;
                    unit = fst added;
                    e2 = snd added;
                    router = (case tr e2 name of Some r \<Rightarrow> r | None \<Rightarrow> []);
                    e3 = e2\<lparr>tr := (tr e2)(name \<mapsto> router)\<rparr>
                in case assert_string c ''match'' of
                     Inl panic \<Rightarrow> (Some panic, e3)
                   | Inr pattern \<Rightarrow>
                       (case regexp_Compile L pattern of
                          Inl err \<Rightarrow> (Some err, e3)
                        | Inr re \<Rightarrow>
                            (None, e3\<lparr>tr := (tr e3)(name \<mapsto> TagRouter_Add re unit router)\<rparr>)))))"

text \<open>
  The loop \<open>for _, f := range e.filters { f.Router.Add(re, unit) }\<close> over the units
  that \<open>filters\<close> points to.
\<close>

fun add_to_preceding :: "'re \<Rightarrow> nat \<Rightarrow> nat list \<Rightarrow> 're ExecUnit list \<Rightarrow> 're ExecUnit list" where
  "add_to_preceding re unit [] us = us"
| "add_to_preceding re unit (f # fs) us =
     add_to_preceding re unit fs
       (us[f := (us ! f)\<lparr>Router := TagRouter_Add re unit (Router (us ! f))\<rparr>])"

definition RegisterFilterPlugin :: "'re Lib \<Rightarrow> conf \<Rightarrow> 're Engine \<Rightarrow> error option \<times> 're Engine" where
  "RegisterFilterPlugin L c e =
     (case assert_string c ''type'' of
        Inl panic \<Rightarrow> (Some panic, e)
      | Inr t \<Rightarrow>
          (let e1 = pluginInstance L (''filter-'' @ t) e;
               added = addExecUnit (''filter-'' @ t) c None e1;
               unit = fst added;
               e2 = snd added
           in case assert_string c ''match'' of
                Inl panic \<Rightarrow> (Some panic, e2)
              | Inr pattern \<Rightarrow>
                  (case regexp_Compile L pattern of
                     Inl err \<Rightarrow> (Some err, e2)
                   | Inr re \<Rightarrow>
                       (None, e2\<lparr>ftr := TagRouter_Add re unit (ftr e2),
                                 units := add_to_preceding re unit (filters e2) (units e2),
                                 filters := filters e2 @ [unit]\<rparr>))))"

text \<open>
  \<open>Emit\<close> ranges over the map \<open>e.tr\<close>; Go visits every key of a map once, in an order
  it does not fix, so the order of the visit is the argument \<open>names\<close>, an enumeration
  of the keys. The calls \<open>ins.Emit(ev)\<close> made are the result: the list of the units
  the event was delivered to, in the order of the calls.
\<close>

fun Emit :: "'re Lib \<Rightarrow> string list \<Rightarrow> 're Engine \<Rightarrow> Event \<Rightarrow> (nat \<times> Event) list" where
  "Emit L [] e ev = []"
| "Emit L (name # names) e ev =
     (case tr e name of
        None \<Rightarrow> []
      | Some r \<Rightarrow> (case Route L r (Tag ev) of Some ins \<Rightarrow> [(ins, ev)] | None \<Rightarrow> []))
     @ Emit L names e ev"

definition Filter :: "'re Lib \<Rightarrow> string list \<Rightarrow> 're Engine \<Rightarrow> Event \<Rightarrow> (nat \<times> Event) list" where
  "Filter L names e ev =
     (case Route L (ftr e) (Tag ev) of
        Some ins \<Rightarrow> [(ins, ev)]
      | None \<Rightarrow> Emit L names e ev)"

definition map_range :: "string list \<Rightarrow> (string \<rightharpoonup> 'v) \<Rightarrow> bool" where
  "map_range names m \<longleftrightarrow> distinct names \<and> set names = dom m"

subsection \<open>Sequences of registrations\<close>

datatype registration =
    Buffer Options
  | Input conf
  | FilterPlugin conf
  | Output string conf

fun register :: "'re Lib \<Rightarrow> registration \<Rightarrow> 're Engine \<Rightarrow> error option \<times> 're Engine" where
  "register L (Buffer opts) e = (None, RegisterBuffer opts e)"
| "register L (Input c) e = RegisterInputPlugin L c e"
| "register L (FilterPlugin c) e = RegisterFilterPlugin L c e"
| "register L (Output name c) e = RegisterOutputPlugin L name c e"

fun registrations :: "'re Lib \<Rightarrow> registration list \<Rightarrow> 're Engine \<Rightarrow> 're Engine" where
  "registrations L [] e = e"
| "registrations L (r # rs) e = registrations L rs (snd (register L r e))"

subsection \<open>Properties of an engine\<close>

text \<open>
  The unit ids: the counter equals the number of units, and the unit at position \<open>i\<close>
  carries the id \<open>i + 1\<close> (as 32-bit values).
\<close>

definition ids_inv :: "'re Engine \<Rightarrow> bool" where
  "ids_inv e \<longleftrightarrow>
     unitID e = word_of_nat (length (units e)) \<and>
     map ID (units e) = map (\<lambda>i. word_of_nat (Suc i)) [0..<length (units e)]"


text \<open>
  The filter chain: \<open>filters\<close> lists the units of the filter router in its order, all
  different and all existing, and the router attached to the \<open>k\<close>-th filter is the
  part of the filter router after position \<open>k\<close>.
\<close>

definition chain_inv :: "'re Engine \<Rightarrow> bool" where
  "chain_inv e \<longleftrightarrow>
     map snd (ftr e) = filters e \<and> distinct (filters e) \<and>
     (\<forall>f \<in> set (filters e). f < length (units e)) \<and>
     (\<forall>k < length (filters e). Router (units e ! (filters e ! k)) = drop (Suc k) (ftr e))"


text \<open>
  The filters that a sequence of registrations, run from the engine \<open>e\<close>, has
  registered: for every call of \<open>RegisterFilterPlugin\<close> in the sequence that returns no
  error, in the order of the calls, the configuration passed to the call and the unit
  the call created (the one it appended to \<open>units\<close>). \<open>compiled\<close> is the expression
  that \<open>regexp.Compile\<close> gives for the pattern \<open>conf["match"]\<close> of a configuration.
\<close>

definition compiled :: "'re Lib \<Rightarrow> conf \<Rightarrow> 're option" where
  "compiled L c =
     (case assert_string c ''match'' of
        Inl panic \<Rightarrow> None
      | Inr pattern \<Rightarrow> (case regexp_Compile L pattern of Inl err \<Rightarrow> None | Inr re \<Rightarrow> Some re))"

fun registered_filters ::
  "'re Lib \<Rightarrow> registration list \<Rightarrow> 're Engine \<Rightarrow> (conf \<times> nat) list" where
  "registered_filters L [] e = []"
| "registered_filters L (r # rs) e =
     (case r of
        FilterPlugin c \<Rightarrow>
          (if fst (RegisterFilterPlugin L c e) = None then [(c, length (units e))] else [])
      | _ \<Rightarrow> [])
     @ registered_filters L rs (snd (register L r e))"

text \<open>
  How the engine \<open>e\<close> records the registered filters \<open>fs\<close>: \<open>filters\<close> lists their
  units, the filter router lists their compiled patterns with their units, and each
  unit carries the configuration it was registered with.
\<close>

definition chain_trace :: "'re Lib \<Rightarrow> 're Engine \<Rightarrow> (conf \<times> nat) list \<Rightarrow> bool" where
  "chain_trace L e fs \<longleftrightarrow>
     map snd fs = filters e \<and>
     map (\<lambda>(re, u). (Some re, u)) (ftr e) = map (\<lambda>(c, u). (compiled L c, u)) fs \<and>
     list_all (\<lambda>(c, u). u < length (units e) \<and> Conf (units e ! u) = c) fs"

text \<open>
  The named output routers: their units exist, and no unit is in two routers.
\<close>

definition routes_inv :: "'re Engine \<Rightarrow> bool" where
  "routes_inv e \<longleftrightarrow>
     (\<forall>n r. tr e n = Some r \<longrightarrow> (\<forall>u \<in> snd ` set r. u < length (units e))) \<and>
     (\<forall>n1 n2 r1 r2. tr e n1 = Some r1 \<and> tr e n2 = Some r2 \<and> n1 \<noteq> n2 \<longrightarrow>
        snd ` set r1 \<inter> snd ` set r2 = {})"

text \<open>
  What one registration does to the routing tables, as relations between the engine
  before and after it: \<open>routed\<close> for the named routers (at most one router gains at
  most one entry, for the unit just created), \<open>appended\<close> and \<open>chained\<close> for the units
  and the filter chain (either the chain is untouched and at most one unit is appended,
  or a filter was registered and joined the chain).
\<close>

definition routed :: "'re Engine \<Rightarrow> 're Engine \<Rightarrow> bool" where
  "routed e e' \<longleftrightarrow>
     length (units e) \<le> length (units e') \<and>
     (tr e' = tr e \<or>
      (\<exists>name r new. (tr e name = Some r \<or> tr e name = None \<and> r = []) \<and>
         tr e' = (tr e)(name \<mapsto> r @ new) \<and>
         (new = [] \<or> (\<exists>re. new = [(re, length (units e))]) \<and> length (units e) < length (units e'))))"


definition appended :: "'re Engine \<Rightarrow> 're Engine \<Rightarrow> bool" where
  "appended e e' \<longleftrightarrow>
     ftr e' = ftr e \<and> filters e' = filters e \<and>
     (units e' = units e \<and> unitID e' = unitID e \<or>
      (\<exists>c b. units e' = units e @ [\<lparr>ID = unitID e + 1, Conf = c, BufferOptions = b, Router = []\<rparr>]) \<and>
        unitID e' = unitID e + 1)"

definition chained :: "'re Engine \<Rightarrow> 're Engine \<Rightarrow> bool" where
  "chained e e' \<longleftrightarrow>
     (\<exists>re c b. ftr e' = ftr e @ [(re, length (units e))] \<and>
        filters e' = filters e @ [length (units e)] \<and>
        units e' = add_to_preceding re (length (units e)) (filters e)
           (units e @ [\<lparr>ID = unitID e + 1, Conf = c, BufferOptions = b, Router = []\<rparr>])) \<and>
     unitID e' = unitID e + 1 \<and> tr e' = tr e"


text \<open>What one router contributes to \<open>Emit\<close>: the delivery to its first match, if any.\<close>

definition offered :: "'re Lib \<Rightarrow> 're TagRouter \<Rightarrow> Event \<Rightarrow> (nat \<times> Event) list" where
  "offered L r ev = (case Route L r (Tag ev) of Some ins \<Rightarrow> [(ins, ev)] | None \<Rightarrow> [])"


subsection \<open>A library and a configuration for concrete runs\<close>

text \<open>
  A stand-in for package \<open>regexp\<close> on the expressions used in the runs below: the
  expression \<open>(\<close> does not compile, and an expression \<open>^w$\<close> whose \<open>w\<close> has no
  metacharacter matches the tag \<open>w\<close> and no other. No plugin is embedded.
\<close>

definition literal_lib :: "string Lib" where
  "literal_lib =
     \<lparr>regexp_Compile = (\<lambda>p. if p = ''('' then Inl (BadRegexp p) else Inr p),
      regexp_MatchString = (\<lambda>re tag. re = ''^'' @ tag @ ''$''),
      EmbeddedPlugins = (\<lambda>name. False)\<rparr>"

definition plugin_conf :: "string \<Rightarrow> string \<Rightarrow> conf" where
  "plugin_conf t pattern = [''type'' \<mapsto> IString t, ''match'' \<mapsto> IString pattern]"

definition sample_registrations :: "registration list" where
  "sample_registrations =
     [Input [''type'' \<mapsto> IString ''forward''],
      FilterPlugin (plugin_conf ''grep'' ''^app$''),
      FilterPlugin (plugin_conf ''record'' ''^app$''),
      Output ''main'' (plugin_conf ''file'' ''^web$''),
      Output ''audit'' (plugin_conf ''file'' ''^web$''),
      Output ''main'' (plugin_conf ''stdout'' ''^web$'')]"

definition sample_engine :: "string Engine" where
  "sample_engine = registrations literal_lib sample_registrations New"

definition event_of :: "string \<Rightarrow> Event" where
  "event_of tag = \<lparr>Tag = tag, Time = 1700000000, Record = [(''k'', IString ''v'')]\<rparr>"

text \<open>
  A run with three filters that register, one whose pattern does not compile, an input
  and an output between them.
\<close>

definition chain_registrations :: "registration list" where
  "chain_registrations =
     [FilterPlugin (plugin_conf ''grep'' ''^app$''),
      Input [''type'' \<mapsto> IString ''forward''],
      FilterPlugin (plugin_conf ''grep'' ''(''),
      FilterPlugin (plugin_conf ''record'' ''^app$''),
      Output ''main'' (plugin_conf ''file'' ''^web$''),
      FilterPlugin (plugin_conf ''geo'' ''^db$'')]"

definition chain_engine :: "string Engine" where
  "chain_engine = registrations literal_lib chain_registrations New"


section \<open>Theorems about the buffer\<close>

lemmas buffer_defs = Push_def NewMemory_def push_front_evict_def Let_def MemoryChunk_Push_def
  empty_chunk_def pop_iter_def copy_slice_def recording_def Close_def word_sless_alt
  word_sle_eq

subsection \<open>The bounds are kept by every push\<close>

lemma push_front_evict_inv:
  assumes "buffer_inv m" and "Sizer_Size s \<le>s maxChunkSize m"
  shows "buffer_inv (push_front_evict s m)"
  using assms
  by (auto simp: buffer_inv_def push_front_evict_def Let_def MemoryChunk_Push_def
        empty_chunk_def word_sle_eq word_sless_alt list_all_iff
      split: list.splits if_splits dest: in_set_butlastD)

lemma Push_inv:
  assumes "buffer_inv m"
  shows "buffer_inv (snd (Push s m))"
proof (cases "maxChunkSize m <s Sizer_Size s")
  case True
  then show ?thesis using assms by (simp add: Push_def)
next
  case fits: False
  then have le: "Sizer_Size s \<le>s maxChunkSize m"
    by (simp add: word_sle_eq word_sless_alt)
  show ?thesis
  proof (cases "chunks m")
    case Nil
    with fits have "snd (Push s m) = push_front_evict s m"
      by (simp add: Push_def)
    with push_front_evict_inv [OF assms le] show ?thesis by simp
  next
    case (Cons e rest)
    show ?thesis
    proof (cases "maxChunkSize m <s Size e + Sizer_Size s")
      case True
      with Cons fits
      have m': "snd (Push s m) = push_front_evict s (m\<lparr>eventCh := eventCh m + 1\<rparr>)"
        by (simp add: Push_def)
      have "buffer_inv (m\<lparr>eventCh := eventCh m + 1\<rparr>)"
        using assms by (simp add: buffer_inv_def)
      from push_front_evict_inv [OF this] le show ?thesis unfolding m' by simp
    next
      case False
      with Cons fits
      have m': "snd (Push s m) = m\<lparr>chunks := MemoryChunk_Push s e # rest\<rparr>"
        by (simp add: Push_def)
      from False have "Size e + Sizer_Size s \<le>s maxChunkSize m"
        by (simp add: word_sle_eq word_sless_alt)
      with assms Cons show ?thesis unfolding m'
        by (simp add: buffer_inv_def MemoryChunk_Push_def)
    qed
  qed
qed







lemma pop_iter_inv:
  assumes "buffer_inv m" and "pop_iter W m = Inr m'"
  shows "buffer_inv m'"
proof (cases "chunks m = []")
  case True
  with assms show ?thesis by (simp add: pop_iter_def)
next
  case False
  then have sp: "chunks m = butlast (chunks m) @ [last (chunks m)]" by simp
  from assms(1) have len: "int (length (chunks m)) \<le> sint (maxQueueSize m)"
    and all: "list_all (\<lambda>c. Size c \<le>s maxChunkSize m) (chunks m)"
    by (simp_all add: buffer_inv_def)
  from all sp have bl: "list_all (\<lambda>c. Size c \<le>s maxChunkSize m) (butlast (chunks m))"
    and la: "Size (last (chunks m)) \<le>s maxChunkSize m"
    by (metis list_all_append list.pred_inject(2))+
  from assms(2) False bl la len show ?thesis
    by (auto simp: pop_iter_def Let_def buffer_inv_def split: if_splits)
qed













subsection \<open>Rejected and accepted pushes\<close>

text \<open>
  Claim C6. \<open>Push\<close> returns an error exactly when the size of the item is greater than
  \<open>maxChunkSize\<close>, and then the buffer is as it was. An item whose size equals
  \<open>maxChunkSize\<close>, pushed into a buffer with no chunk and room for at least one,
  is accepted and is the only item of the only chunk.
\<close>

theorem Push_error_iff_too_large:
  "(fst (Push s m) \<noteq> None \<longleftrightarrow> maxChunkSize m <s Sizer_Size s) \<and>
   (fst (Push s m) \<noteq> None \<longrightarrow> snd (Push s m) = m) \<and>
   (chunks m = [] \<and> Sizer_Size s = maxChunkSize m \<and> 1 \<le>s maxQueueSize m \<longrightarrow>
      Push s m = (None, m\<lparr>chunks := [\<lparr>Size = maxChunkSize m, Items = [s]\<rparr>]\<rparr>))"
  by (auto simp: buffer_defs split: list.splits)

theorem Push_error_iff_too_large_witness:
  "fst (Push (StringItem ''abcde'') (NewMemory 4 1 ())) \<noteq> None \<and>
   snd (Push (StringItem ''abcde'') (NewMemory 4 1 ())) = NewMemory 4 1 () \<and>
   Push (StringItem ''abcd'') (NewMemory 4 1 ()) =
     (None, (NewMemory 4 1 ())\<lparr>chunks := [\<lparr>Size = 4, Items = [StringItem ''abcd'']\<rparr>]\<rparr>)"
proof -
  have a: "maxChunkSize (NewMemory 4 1 ()) <s Sizer_Size (StringItem ''abcde'')"
    by (simp add: NewMemory_def word_sless_alt)
  have b: "chunks (NewMemory 4 1 ()) = [] \<and>
      Sizer_Size (StringItem ''abcd'') = maxChunkSize (NewMemory 4 1 ()) \<and>
      1 \<le>s maxQueueSize (NewMemory 4 1 ())"
    by (simp add: NewMemory_def word_sle_eq)
  have c: "maxChunkSize (NewMemory 4 1 ()) = 4"
    by (simp add: NewMemory_def)
  from Push_error_iff_too_large [of "StringItem ''abcde''" "NewMemory 4 1 ()"] a
    Push_error_iff_too_large [of "StringItem ''abcd''" "NewMemory 4 1 ()"] b
  show ?thesis unfolding c by blast
qed

subsection \<open>A push that fills the head exactly\<close>

text \<open>
  Claim C7, as stated, at a concrete buffer: the head holds 6 of at most 10 bytes and an
  item of 4 bytes is pushed. The item is appended to the head, which is then exactly
  full; the head is not retired by this push (the flusher is not signalled, no chunk
  is allocated).
\<close>

theorem Push_exact_fit_keeps_head:
  "Push (StringItem ''abcd'') (pushes (NewMemory 10 4 ()) [StringItem ''abcdef'']) =
   (None, \<lparr>chunks = [\<lparr>Size = 10, Items = [StringItem ''abcdef'', StringItem ''abcd'']\<rparr>],
        maxChunkSize = 10, maxQueueSize = 4, handler = (), eventCh = 0, closed = False\<rparr>) \<and>
   \<not> head_retired (StringItem ''abcd'') (pushes (NewMemory 10 4 ()) [StringItem ''abcdef''])
      (snd (Push (StringItem ''abcd'') (pushes (NewMemory 10 4 ()) [StringItem ''abcdef''])))"
  by (simp add: buffer_defs head_retired_def)

text \<open>
  Claim C7, amended. A push whose item brings the size of the head chunk to exactly
  \<open>maxChunkSize\<close> appends the item to the head chunk, which is then exactly full and is
  not retired by this push; no chunk exceeds \<open>maxChunkSize\<close> as a result of the push.
\<close>

theorem Push_exact_fit_appends:
  assumes "chunks m = e # rest"
    and "Sizer_Size s \<le>s maxChunkSize m"
    and "Size e + Sizer_Size s = maxChunkSize m"
  shows "Push s m =
           (None, m\<lparr>chunks := \<lparr>Size = maxChunkSize m, Items = Items e @ [s]\<rparr> # rest\<rparr>) \<and>
         \<not> head_retired s m (snd (Push s m)) \<and>
         (buffer_inv m \<longrightarrow> buffer_inv (snd (Push s m)))"
  using assms Push_inv [of m s]
  by (auto simp: Push_def Let_def MemoryChunk_Push_def head_retired_def word_sle_eq
        word_sless_alt)

theorem Push_exact_fit_appends_witness:
  "Push (StringItem ''abcd'')
     \<lparr>chunks = [\<lparr>Size = 6, Items = [StringItem ''abcdef'']\<rparr>],
      maxChunkSize = 10, maxQueueSize = 4, handler = (), eventCh = 0, closed = False\<rparr> =
   (None, \<lparr>chunks = [\<lparr>Size = 10, Items = [StringItem ''abcdef'', StringItem ''abcd'']\<rparr>],
        maxChunkSize = 10, maxQueueSize = 4, handler = (), eventCh = 0, closed = False\<rparr>) \<and>
   buffer_inv \<lparr>chunks = [\<lparr>Size = 10, Items = [StringItem ''abcdef'', StringItem ''abcd'']\<rparr>],
        maxChunkSize = 10, maxQueueSize = 4, handler = (), eventCh = 0, closed = False\<rparr>"
proof -
  let ?m = "\<lparr>chunks = [\<lparr>Size = 6, Items = [StringItem ''abcdef'']\<rparr>],
        maxChunkSize = 10, maxQueueSize = 4, handler = (), eventCh = 0, closed = False\<rparr>"
  have a: "chunks ?m = \<lparr>Size = 6, Items = [StringItem ''abcdef'']\<rparr> # []" by simp
  have b: "Sizer_Size (StringItem ''abcd'') \<le>s maxChunkSize ?m" by (simp add: word_sle_eq)
  have c: "Size \<lparr>Size = 6, Items = [StringItem ''abcdef'']\<rparr> + Sizer_Size (StringItem ''abcd'')
             = maxChunkSize ?m" by simp
  have d: "buffer_inv ?m" by (simp add: buffer_inv_def word_sle_eq)
  note r = Push_exact_fit_appends [OF a b c]
  from r have e: "Push (StringItem ''abcd'') ?m =
      (None, \<lparr>chunks = [\<lparr>Size = 10, Items = [StringItem ''abcdef'', StringItem ''abcd'']\<rparr>],
        maxChunkSize = 10, maxQueueSize = 4, handler = (), eventCh = 0, closed = False\<rparr>)"
    by simp
  from r d have "buffer_inv (snd (Push (StringItem ''abcd'') ?m))" by blast
  with e show ?thesis by simp
qed

subsection \<open>A write that fails after partial progress\<close>

lemma copy_slice_drop:
  "n \<le> length xs \<Longrightarrow> copy_slice xs (drop n xs) = drop n xs @ drop (length xs - n) xs"
  by (simp add: copy_slice_def)

text \<open>
  After a failed write that reports \<open>n\<close> items committed, the chunk at the tail keeps
  its length: its items are the remaining ones followed by the last \<open>n\<close> items again.
\<close>

lemma pop_iter_error:
  assumes "chunks m \<noteq> []"
    and "W (handler m) (Items (last (chunks m))) = ((n, Some err), h')"
    and "0 \<le> n" and "n \<le> int (length (Items (last (chunks m))))"
  shows "pop_iter W m = Inr (m\<lparr>handler := h',
           chunks := butlast (chunks m) @
             [(last (chunks m))\<lparr>Items := drop (nat n) (Items (last (chunks m))) @
                 drop (length (Items (last (chunks m))) - nat n) (Items (last (chunks m)))\<rparr>]\<rparr>)"
  using assms by (simp add: pop_iter_def Let_def copy_slice_drop)

text \<open>
  Claim C1, on the code: a chunk of the five items a, b, c, d, e whose write fails with
  \<open>n = 2\<close>. The chunk is retained, with the five items c, d, e, d, e; the next flush
  hands the handler these five items, not the three remaining ones.
\<close>

theorem pop_partial_write_presents_five_items:
  "pop_iter (recording 2 (Some (WriteError ''sink unavailable'')))
     (pushes (NewMemory 8 4 []) five) =
   Inr \<lparr>chunks = [\<lparr>Size = 5, Items = [StringItem ''c'', StringItem ''d'', StringItem ''e'',
                                        StringItem ''d'', StringItem ''e'']\<rparr>],
        maxChunkSize = 8, maxQueueSize = 4, handler = [five], eventCh = 0, closed = False\<rparr> \<and>
   pop_iter (recording 5 None)
     \<lparr>chunks = [\<lparr>Size = 5, Items = [StringItem ''c'', StringItem ''d'', StringItem ''e'',
                                    StringItem ''d'', StringItem ''e'']\<rparr>],
      maxChunkSize = 8, maxQueueSize = 4, handler = [five], eventCh = 0, closed = False\<rparr> =
   Inr \<lparr>chunks = [], maxChunkSize = 8, maxQueueSize = 4,
        handler = [five, [StringItem ''c'', StringItem ''d'', StringItem ''e'',
                          StringItem ''d'', StringItem ''e'']],
        eventCh = 0, closed = False\<rparr>"
  by (simp add: five_def buffer_defs)

subsection \<open>Closing a buffer\<close>

text \<open>
  \<open>Close\<close> hands every chunk to the handler once, in the order of the queue from its
  front, and leaves the queue empty and the buffer closed, whatever the handler returns.
\<close>

lemma write_each_recording:
  "write_each (recording n err) h cs = h @ map Items cs"
  by (induction cs arbitrary: h) (simp_all add: recording_def)

lemma Close_recording:
  "Close (recording n err) m = m\<lparr>closed := True, handler := handler m @ map Items (chunks m),
     chunks := []\<rparr>"
  by (simp add: Close_def write_each_recording)

text \<open>
  Claim C4, on the code: a buffer with chunks of at most 2 bytes into which a, b, c are
  pushed holds the chunk of c at its front (the head, newest) and the chunk of a, b at
  its back (the tail, oldest). \<open>Close\<close> hands the handler the chunk of c first and the
  chunk of a, b second: from head to tail.
\<close>

theorem Close_writes_newest_chunk_first:
  "pushes (NewMemory 2 4 []) [StringItem ''a'', StringItem ''b'', StringItem ''c''] =
     \<lparr>chunks = [\<lparr>Size = 1, Items = [StringItem ''c'']\<rparr>,
                \<lparr>Size = 2, Items = [StringItem ''a'', StringItem ''b'']\<rparr>],
      maxChunkSize = 2, maxQueueSize = 4, handler = [], eventCh = 1, closed = False\<rparr> \<and>
   Close (recording 0 None)
      (pushes (NewMemory 2 4 []) [StringItem ''a'', StringItem ''b'', StringItem ''c'']) =
     \<lparr>chunks = [], maxChunkSize = 2, maxQueueSize = 4,
      handler = [[StringItem ''c''], [StringItem ''a'', StringItem ''b'']],
      eventCh = 1, closed = True\<rparr>"
  by (simp add: buffer_defs)

section \<open>Theorems about the engine\<close>

lemmas engine_defs = literal_lib_def plugin_conf_def sample_registrations_def sample_engine_def
  New_def RegisterBuffer_def RegisterInputPlugin_def RegisterOutputPlugin_def
  RegisterFilterPlugin_def pluginInstance_def addExecUnit_def assert_string_def
  TagRouter_Add_def NewInstance_def Let_def SetDefault_def event_of_def

subsection \<open>What one registration changes\<close>

lemma pluginInstance_fields [simp]:
  "units (pluginInstance L name e) = units e"
  "filters (pluginInstance L name e) = filters e"
  "tr (pluginInstance L name e) = tr e"
  "ftr (pluginInstance L name e) = ftr e"
  "bufs (pluginInstance L name e) = bufs e"
  "unitID (pluginInstance L name e) = unitID e"
  by (simp_all add: pluginInstance_def Let_def split: option.splits)

lemma addExecUnit_fields [simp]:
  "fst (addExecUnit ins c b e) = length (units e)"
  "units (snd (addExecUnit ins c b e)) =
     units e @ [\<lparr>ID = unitID e + 1, Conf = c, BufferOptions = b, Router = []\<rparr>]"
  "filters (snd (addExecUnit ins c b e)) = filters e"
  "tr (snd (addExecUnit ins c b e)) = tr e"
  "ftr (snd (addExecUnit ins c b e)) = ftr e"
  "bufs (snd (addExecUnit ins c b e)) = bufs e"
  "unitID (snd (addExecUnit ins c b e)) = unitID e + 1"
  by (simp_all add: addExecUnit_def Let_def)

lemma length_add_to_preceding [simp]:
  "length (add_to_preceding re u fs us) = length us"
  by (induction fs arbitrary: us) simp_all

lemma ID_add_to_preceding [simp]:
  "map ID (add_to_preceding re u fs us) = map ID us"
proof (induction fs arbitrary: us)
  case Nil
  show ?case by simp
next
  case (Cons f fs)
  have "map ID (us[f := (us ! f)\<lparr>Router := TagRouter_Add re u (Router (us ! f))\<rparr>]) = map ID us"
    by (cases "f < length us") (simp_all add: map_update list_update_same_conv list_update_beyond)
  with Cons show ?case by simp
qed

lemma nth_add_to_preceding:
  "distinct fs \<Longrightarrow> i < length us \<Longrightarrow>
   add_to_preceding re u fs us ! i =
     (if i \<in> set fs then (us ! i)\<lparr>Router := Router (us ! i) @ [(re, u)]\<rparr> else us ! i)"
proof (induction fs arbitrary: us)
  case Nil
  show ?case by simp
next
  case (Cons f fs)
  let ?us = "us[f := (us ! f)\<lparr>Router := TagRouter_Add re u (Router (us ! f))\<rparr>]"
  from Cons.prems have d: "distinct fs" and f: "f \<notin> set fs" and i: "i < length ?us"
    by simp_all
  note ih = Cons.IH [OF d i]
  show ?case
  proof (cases "i = f")
    case True
    with f ih Cons.prems(2) show ?thesis by (simp add: TagRouter_Add_def)
  next
    case False
    with ih show ?thesis by simp
  qed
qed

text \<open>
  Every registration either leaves the filter chain alone and appends at most one unit,
  or is a successful registration of a filter.
\<close>

lemma register_cases: "appended e (snd (register L r e)) \<or> chained e (snd (register L r e))"
proof (cases r)
  case (Buffer opts)
  then show ?thesis by (simp add: appended_def RegisterBuffer_def)
next
  case (Input c)
  then show ?thesis
    by (auto simp: appended_def RegisterInputPlugin_def split: sum.splits)
next
  case (FilterPlugin c)
  then show ?thesis
    by (auto simp: appended_def chained_def RegisterFilterPlugin_def Let_def TagRouter_Add_def
        split: sum.splits)
next
  case (Output name c)
  then show ?thesis
    by (auto simp: appended_def RegisterOutputPlugin_def Let_def split: sum.splits option.splits iface.splits)
qed

lemma register_routed: "routed e (snd (register L r e))"
proof (cases r)
  case (Buffer opts)
  then show ?thesis by (simp add: routed_def RegisterBuffer_def)
next
  case (Input c)
  then show ?thesis by (auto simp: routed_def RegisterInputPlugin_def split: sum.splits)
next
  case (FilterPlugin c)
  then show ?thesis
    by (auto simp: routed_def RegisterFilterPlugin_def Let_def split: sum.splits)
next
  case (Output name c)
  let ?r = "case tr e name of Some r \<Rightarrow> r | None \<Rightarrow> []"
  let ?e' = "snd (RegisterOutputPlugin L name c e)"
  have r: "tr e name = Some ?r \<or> tr e name = None \<and> ?r = []"
    by (cases "tr e name") simp_all
  have "length (units e) \<le> length (units ?e') \<and>
    (tr ?e' = tr e \<or>
     (\<exists>new. tr ?e' = (tr e)(name \<mapsto> ?r @ new) \<and>
        (new = [] \<or> (\<exists>re. new = [(re, length (units e))]) \<and>
           length (units e) < length (units ?e'))))"
    by (auto simp: RegisterOutputPlugin_def Let_def TagRouter_Add_def
        split: sum.splits option.splits iface.splits)
  with r Output show ?thesis unfolding routed_def by (metis register.simps(4))
qed

text \<open>
  The list \<open>filters\<close> is the registration order of the filters: a call of
  \<open>RegisterFilterPlugin\<close> that returns no error appends the unit it created, and a call
  that returns an error leaves the list and the filter router as they were.
\<close>

lemma RegisterFilterPlugin_order:
  "(fst (RegisterFilterPlugin L c e) = None \<longrightarrow>
      filters (snd (RegisterFilterPlugin L c e)) = filters e @ [length (units e)]) \<and>
   (fst (RegisterFilterPlugin L c e) \<noteq> None \<longrightarrow>
      filters (snd (RegisterFilterPlugin L c e)) = filters e \<and>
      ftr (snd (RegisterFilterPlugin L c e)) = ftr e)"
  by (auto simp: RegisterFilterPlugin_def Let_def split: sum.splits)

subsection \<open>Unit ids\<close>

lemma ids_inv_New: "ids_inv New"
  by (simp add: ids_inv_def New_def)

lemma ids_inv_step:
  assumes "ids_inv e" shows "ids_inv (snd (register L r e))"
  using register_cases [of e L r] assms
  by (auto simp: appended_def chained_def ids_inv_def)

lemma ids_inv_registrations: "ids_inv e \<Longrightarrow> ids_inv (registrations L rs e)"
  by (induction rs arbitrary: e) (simp_all add: ids_inv_step)

lemma sint_word_of_nat_32:
  "n < 2 ^ 31 \<Longrightarrow> sint (word_of_nat n :: 32 word) = int n"
proof -
  assume "n < 2 ^ 31"
  then have "int n < 2 ^ 31" by (metis of_nat_less_numeral_power_cancel_iff)
  then have "signed_take_bit 31 (int n) = int n"
    by (intro signed_take_bit_int_eq_self) simp_all
  then show ?thesis by (simp add: signed_of_nat)
qed

text \<open>
  Claim C10. After any sequence of registrations on a new engine that has created fewer
  than \<open>2^31\<close> units, the ids of the units, read as signed 32-bit integers and
  taken in the order of their creation, are 1, 2, ..., n: every id is strictly positive
  and none is the reserved value 0.
\<close>

theorem unit_ids_consecutive:
  assumes "length (units (registrations L rs New)) < 2 ^ 31"
  shows "map (\<lambda>u. sint (ID u)) (units (registrations L rs New)) =
           map int [1..<Suc (length (units (registrations L rs New)))] \<and>
         list_all (\<lambda>u. 0 < sint (ID u) \<and> ID u \<noteq> 0) (units (registrations L rs New))"
proof -
  let ?e = "registrations L rs New"
  have inv: "ids_inv ?e" by (rule ids_inv_registrations [OF ids_inv_New])
  have nth: "sint (ID (units ?e ! i)) = int i + 1" if "i < length (units ?e)" for i
  proof -
    from inv that have "ID (units ?e ! i) = word_of_nat (Suc i)"
      by (metis (no_types, lifting) ids_inv_def nth_map nth_upt add_0 length_map length_upt minus_nat.diff_0)
    moreover from that assms have "Suc i < 2 ^ 31" by simp
    ultimately show ?thesis by (simp add: sint_word_of_nat_32 del: of_nat_Suc)
  qed
  have a: "map (\<lambda>u. sint (ID u)) (units ?e) = map int [1..<Suc (length (units ?e))]"
    by (rule nth_equalityI) (simp_all add: nth nth_append del: upt_Suc)
  have b: "list_all (\<lambda>u. 0 < sint (ID u) \<and> ID u \<noteq> 0) (units ?e)"
    unfolding list_all_length
  proof (intro allI impI)
    fix i assume "i < length (units ?e)"
    from nth [OF this] show "0 < sint (ID (units ?e ! i)) \<and> ID (units ?e ! i) \<noteq> 0"
      by auto
  qed
  from a b show ?thesis by simp
qed

subsection \<open>The concrete engine\<close>

lemma sample_units: "map ID (units sample_engine) = [1, 2, 3, 4, 5, 6]"
  by (simp add: engine_defs)

lemma sample_routers: "map Router (units sample_engine) = [[], [(''^app$'', 2)], [], [], [], []]"
  by (simp add: engine_defs)

lemma sample_filters: "filters sample_engine = [1, 2] \<and> ftr sample_engine = [(''^app$'', 1), (''^app$'', 2)]"
  by (simp add: engine_defs)

lemma sample_tr:
  "tr sample_engine ''main'' = Some [(''^web$'', 3), (''^web$'', 5)]"
  "tr sample_engine ''audit'' = Some [(''^web$'', 4)]"
  "dom (tr sample_engine) = {''main'', ''audit''}"
  by (auto simp: engine_defs eval_nat_numeral)

lemma sample_range: "map_range [''main'', ''audit''] (tr sample_engine)"
  by (simp add: map_range_def sample_tr)

theorem unit_ids_consecutive_witness:
  "length (units sample_engine) < 2 ^ 31 \<and>
   map (\<lambda>u. sint (ID u)) (units sample_engine) = [1, 2, 3, 4, 5, 6] \<and>
   list_all (\<lambda>u. 0 < sint (ID u) \<and> ID u \<noteq> 0) (units sample_engine)"
proof -
  have "length (map ID (units sample_engine)) = 6"
    by (simp only: sample_units) simp
  then have l: "length (units sample_engine) = 6" by simp
  then have h: "length (units (registrations literal_lib sample_registrations New)) < 2 ^ 31"
    by (simp add: sample_engine_def)
  have u: "map int [1..<Suc 6] = [1, 2, 3, 4, 5, 6]"
    by code_simp
  from unit_ids_consecutive [OF h] l u h show ?thesis
    by (simp add: sample_engine_def [symmetric])
qed

subsection \<open>The filter chain\<close>

lemma chain_inv_New: "chain_inv New"
  by (simp add: chain_inv_def New_def)

lemma chain_inv_appended:
  assumes "chain_inv e" and "appended e e'"
  shows "chain_inv e'"
proof -
  from assms(2) have f: "ftr e' = ftr e" "filters e' = filters e"
    and u: "\<exists>new. units e' = units e @ new"
    by (auto simp: appended_def)
  from u obtain new where new: "units e' = units e @ new" ..
  from assms(1) have lt: "\<forall>f \<in> set (filters e). f < length (units e)"
    by (simp add: chain_inv_def)
  have "units e' ! (filters e ! k) = units e ! (filters e ! k)" if "k < length (filters e)" for k
    using that lt new by (simp add: nth_append)
  with assms(1) f new show ?thesis
    by (auto simp: chain_inv_def)
qed

lemma chain_inv_chained:
  assumes inv: "chain_inv e" and ch: "chained e e'"
  shows "chain_inv e'"
proof -
  let ?n = "length (units e)"
  from ch obtain re c b where
    ftr: "ftr e' = ftr e @ [(re, ?n)]" and
    fil: "filters e' = filters e @ [?n]" and
    un: "units e' = add_to_preceding re ?n (filters e)
           (units e @ [\<lparr>ID = unitID e + 1, Conf = c, BufferOptions = b, Router = []\<rparr>])"
    by (auto simp: chained_def)
  let ?us = "units e @ [\<lparr>ID = unitID e + 1, Conf = c, BufferOptions = b, Router = []\<rparr>]"
  from inv have ms: "map snd (ftr e) = filters e" and d: "distinct (filters e)"
    and lt: "\<forall>f \<in> set (filters e). f < ?n"
    and ro: "\<forall>k < length (filters e). Router (units e ! (filters e ! k)) = drop (Suc k) (ftr e)"
    by (simp_all add: chain_inv_def)
  from ms have len: "length (ftr e) = length (filters e)" by (metis length_map)
  from lt have fresh: "?n \<notin> set (filters e)" by auto
  have a: "map snd (ftr e') = filters e'" using ftr fil ms by simp
  have b: "distinct (filters e')" using fil d fresh by simp
  have c: "\<forall>f \<in> set (filters e'). f < length (units e')" using fil un lt by auto
  have r: "Router (units e' ! (filters e' ! k)) = drop (Suc k) (ftr e')"
    if k: "k < length (filters e')" for k
  proof (cases "k < length (filters e)")
    case True
    then have mem: "filters e ! k \<in> set (filters e)" by simp
    with lt have lk: "filters e ! k < ?n" by blast
    from True have "filters e' ! k = filters e ! k" by (simp add: fil nth_append)
    moreover have "units e' ! (filters e ! k) =
        (?us ! (filters e ! k))\<lparr>Router := Router (?us ! (filters e ! k)) @ [(re, ?n)]\<rparr>"
      unfolding un using d lk mem by (subst nth_add_to_preceding) simp_all
    moreover have "?us ! (filters e ! k) = units e ! (filters e ! k)"
      using lk by (simp add: nth_append)
    ultimately show ?thesis using ro True len by (simp add: ftr)
  next
    case False
    with k have keq: "k = length (filters e)" by (simp add: fil)
    then have "filters e' ! k = ?n" by (simp add: fil)
    moreover have "units e' ! ?n = ?us ! ?n"
      unfolding un using d fresh by (subst nth_add_to_preceding) simp_all
    ultimately show ?thesis using keq len by (simp add: ftr)
  qed
  from a b c r show ?thesis by (simp add: chain_inv_def)
qed

lemma chain_inv_step: "chain_inv e \<Longrightarrow> chain_inv (snd (register L r e))"
  using register_cases [of e L r] by (blast intro: chain_inv_appended chain_inv_chained)

lemma chain_inv_registrations: "chain_inv e \<Longrightarrow> chain_inv (registrations L rs e)"
  by (induction rs arbitrary: e) (simp_all add: chain_inv_step)

text \<open>
  The registered filters are what the engine records: a call of \<open>RegisterFilterPlugin\<close>
  that returns no error has compiled the pattern of its configuration, created a unit
  with that configuration and put it at the end of the chain; a call that returns an
  error, and every other registration, leaves the chain as it was.
\<close>

lemma Conf_add_to_preceding [simp]:
  "map Conf (add_to_preceding re u fs us) = map Conf us"
proof (induction fs arbitrary: us)
  case Nil
  show ?case by simp
next
  case (Cons f fs)
  have "map Conf (us[f := (us ! f)\<lparr>Router := TagRouter_Add re u (Router (us ! f))\<rparr>]) = map Conf us"
    by (cases "f < length us") (simp_all add: map_update list_update_same_conv list_update_beyond)
  with Cons show ?case by simp
qed

lemma RegisterFilterPlugin_cases:
  "(fst (RegisterFilterPlugin L c e) = None \<and>
    (\<exists>re. compiled L c = Some re \<and>
       ftr (snd (RegisterFilterPlugin L c e)) = ftr e @ [(re, length (units e))] \<and>
       filters (snd (RegisterFilterPlugin L c e)) = filters e @ [length (units e)] \<and>
       units (snd (RegisterFilterPlugin L c e)) =
         add_to_preceding re (length (units e)) (filters e)
           (units e @ [\<lparr>ID = unitID e + 1, Conf = c, BufferOptions = None, Router = []\<rparr>]))) \<or>
   (fst (RegisterFilterPlugin L c e) \<noteq> None \<and>
    ftr (snd (RegisterFilterPlugin L c e)) = ftr e \<and>
    filters (snd (RegisterFilterPlugin L c e)) = filters e \<and>
    (\<exists>new. units (snd (RegisterFilterPlugin L c e)) = units e @ new))"
  by (auto simp: RegisterFilterPlugin_def compiled_def Let_def TagRouter_Add_def
      split: sum.splits)

lemma register_other:
  assumes "\<forall>c. r \<noteq> FilterPlugin c"
  shows "ftr (snd (register L r e)) = ftr e \<and> filters (snd (register L r e)) = filters e \<and>
         (\<exists>new. units (snd (register L r e)) = units e @ new)"
proof (cases r)
  case (Buffer opts)
  then show ?thesis by (simp add: RegisterBuffer_def)
next
  case (Input c)
  then show ?thesis by (auto simp: RegisterInputPlugin_def split: sum.splits)
next
  case (FilterPlugin c)
  with assms show ?thesis by simp
next
  case (Output name c)
  then show ?thesis
    by (auto simp: RegisterOutputPlugin_def Let_def split: sum.splits option.splits iface.splits)
qed

lemma chain_trace_units:
  assumes t: "chain_trace L e fs" and f: "ftr e' = ftr e" "filters e' = filters e"
    and u: "units e' = units e @ new"
  shows "chain_trace L e' fs"
  using t f u by (auto simp: chain_trace_def list_all_iff nth_append)

lemma chain_trace_step:
  assumes t: "chain_trace L e fs"
  shows "chain_trace L (snd (register L r e)) (fs @ registered_filters L [r] e)"
proof (cases "\<exists>c. r = FilterPlugin c")
  case False
  then have no: "\<forall>c. r \<noteq> FilterPlugin c" by simp
  then have "registered_filters L [r] e = []" by (cases r) simp_all
  with register_other [OF no, of L e] chain_trace_units [OF t] show ?thesis by auto
next
  case True
  then obtain c where r: "r = FilterPlugin c" ..
  let ?e' = "snd (RegisterFilterPlugin L c e)"
  let ?n = "length (units e)"
  show ?thesis
  proof (cases "fst (RegisterFilterPlugin L c e) = None")
    case False
    with RegisterFilterPlugin_cases [of L c e]
    have "ftr ?e' = ftr e" "filters ?e' = filters e" "\<exists>new. units ?e' = units e @ new"
      by auto
    with chain_trace_units [OF t] have "chain_trace L ?e' fs" by auto
    with False r show ?thesis by auto
  next
    case True
    with RegisterFilterPlugin_cases [of L c e] obtain re where
      re: "compiled L c = Some re" and
      ftr: "ftr ?e' = ftr e @ [(re, ?n)]" and
      fil: "filters ?e' = filters e @ [?n]" and
      un: "units ?e' = add_to_preceding re ?n (filters e)
             (units e @ [\<lparr>ID = unitID e + 1, Conf = c, BufferOptions = None, Router = []\<rparr>])"
      by auto
    let ?us = "units e @ [\<lparr>ID = unitID e + 1, Conf = c, BufferOptions = None, Router = []\<rparr>]"
    have len: "length (units ?e') = Suc ?n" by (simp add: un)
    have conf: "Conf (units ?e' ! u) = Conf (?us ! u)" if "u < Suc ?n" for u
    proof -
      have "map Conf (units ?e') ! u = map Conf ?us ! u" by (simp only: un Conf_add_to_preceding)
      with that len show ?thesis by (simp del: map_append)
    qed
    from t have a: "map snd fs = filters e"
      and b: "map (\<lambda>(re, u). (Some re, u)) (ftr e) = map (\<lambda>(c, u). (compiled L c, u)) fs"
      and d: "list_all (\<lambda>(c, u). u < ?n \<and> Conf (units e ! u) = c) fs"
      by (simp_all add: chain_trace_def)
    have d': "list_all (\<lambda>(c, u). u < length (units ?e') \<and> Conf (units ?e' ! u) = c)
               (fs @ [(c, ?n)])"
      using d conf len by (auto simp: list_all_iff nth_append)
    from a b d' re ftr fil have "chain_trace L ?e' (fs @ [(c, ?n)])"
      by (simp add: chain_trace_def)
    with True r show ?thesis by simp
  qed
qed

lemma registered_filters_Cons:
  "registered_filters L (r # rs) e =
     registered_filters L [r] e @ registered_filters L rs (snd (register L r e))"
  by simp

lemma chain_trace_registrations:
  "chain_trace L e fs \<Longrightarrow>
   chain_trace L (registrations L rs e) (fs @ registered_filters L rs e)"
proof (induction rs arbitrary: e fs)
  case Nil
  then show ?case by simp
next
  case (Cons r rs)
  from Cons.IH [OF chain_trace_step [OF Cons.prems, of r]]
  show ?case by (simp only: registered_filters_Cons [of L r rs e] registrations.simps append_assoc)
qed

lemma chain_trace_New: "chain_trace L New []"
  by (simp add: chain_trace_def New_def)

lemma chain_filters:
  "registered_filters literal_lib chain_registrations New =
     [(plugin_conf ''grep'' ''^app$'', 0), (plugin_conf ''record'' ''^app$'', 3),
      (plugin_conf ''geo'' ''^db$'', 5)]"
  by (simp add: engine_defs chain_registrations_def)

lemma chain_ftr:
  "ftr chain_engine = [(''^app$'', 0), (''^app$'', 3), (''^db$'', 5)]"
  by (simp add: engine_defs chain_registrations_def chain_engine_def)

text \<open>
  Claim C5. Take any sequence of registrations on a new engine and let \<open>f1, ..., fn\<close> be
  the filters registered by its calls of \<open>RegisterFilterPlugin\<close> that returned no error,
  in the order of the calls (each with the configuration of its call and the unit the
  call created). Then \<open>filters\<close> lists exactly the units of \<open>f1, ..., fn\<close> in that order,
  all different, and for every \<open>k\<close>: the unit of \<open>fk\<close> carries the configuration of its
  call; the router attached to it is the part of the filter router after position \<open>k\<close>;
  its entries are exactly, in the order of registration, the compiled patterns and the
  units of the filters \<open>f(k+1), ..., fn\<close> registered later; and neither \<open>fk\<close> nor any
  filter registered before it is among its units.
\<close>

theorem filter_router_later_filters_only:
  "filters (registrations L rs New) = map snd (registered_filters L rs New) \<and>
   distinct (map snd (registered_filters L rs New)) \<and>
   (\<forall>k < length (registered_filters L rs New).
      Conf (units (registrations L rs New) ! snd (registered_filters L rs New ! k)) =
        fst (registered_filters L rs New ! k) \<and>
      Router (units (registrations L rs New) ! snd (registered_filters L rs New ! k)) =
        drop (Suc k) (ftr (registrations L rs New)) \<and>
      map (\<lambda>(re, u). (Some re, u))
          (Router (units (registrations L rs New) ! snd (registered_filters L rs New ! k))) =
        map (\<lambda>(c, u). (compiled L c, u)) (drop (Suc k) (registered_filters L rs New)) \<and>
      list_all (\<lambda>f. f \<notin> snd ` set (Router (units (registrations L rs New) !
                      snd (registered_filters L rs New ! k))))
        (take (Suc k) (map snd (registered_filters L rs New))))"
proof -
  let ?e = "registrations L rs New"
  let ?fs = "registered_filters L rs New"
  have inv: "chain_inv ?e" by (rule chain_inv_registrations [OF chain_inv_New])
  from chain_trace_registrations [OF chain_trace_New, of L rs]
  have tr: "chain_trace L ?e ?fs" by simp
  then have a: "map snd ?fs = filters ?e"
    and b: "map (\<lambda>(re, u). (Some re, u)) (ftr ?e) = map (\<lambda>(c, u). (compiled L c, u)) ?fs"
    and c: "list_all (\<lambda>(c, u). u < length (units ?e) \<and> Conf (units ?e ! u) = c) ?fs"
    by (simp_all add: chain_trace_def)
  from inv have ms: "map snd (ftr ?e) = filters ?e" and d: "distinct (filters ?e)"
    by (simp_all add: chain_inv_def)
  have len: "length ?fs = length (filters ?e)" using a by (metis length_map)
  have main: "Conf (units ?e ! snd (?fs ! k)) = fst (?fs ! k) \<and>
      Router (units ?e ! snd (?fs ! k)) = drop (Suc k) (ftr ?e) \<and>
      map (\<lambda>(re, u). (Some re, u)) (Router (units ?e ! snd (?fs ! k))) =
        map (\<lambda>(c, u). (compiled L c, u)) (drop (Suc k) ?fs) \<and>
      list_all (\<lambda>f. f \<notin> snd ` set (Router (units ?e ! snd (?fs ! k))))
        (take (Suc k) (map snd ?fs))"
    if k: "k < length ?fs" for k
  proof -
    from k have mem: "?fs ! k \<in> set ?fs" by simp
    with c have c1: "Conf (units ?e ! snd (?fs ! k)) = fst (?fs ! k)"
      by (auto simp: list_all_iff split: prod.splits)
    from k a have fk: "snd (?fs ! k) = filters ?e ! k" by (metis nth_map)
    from inv k len have r: "Router (units ?e ! (filters ?e ! k)) = drop (Suc k) (ftr ?e)"
      by (simp add: chain_inv_def)
    have c2: "map (\<lambda>(re, u). (Some re, u)) (drop (Suc k) (ftr ?e)) =
              map (\<lambda>(c, u). (compiled L c, u)) (drop (Suc k) ?fs)"
      using b by (metis drop_map)
    have m: "map snd (drop (Suc k) (ftr ?e)) = drop (Suc k) (filters ?e)"
      using ms by (metis drop_map)
    from d have "distinct (take (Suc k) (filters ?e) @ drop (Suc k) (filters ?e))" by simp
    then have "set (take (Suc k) (filters ?e)) \<inter> set (drop (Suc k) (filters ?e)) = {}"
      by (simp only: distinct_append)
    then have "list_all (\<lambda>f. f \<notin> set (drop (Suc k) (filters ?e))) (take (Suc k) (filters ?e))"
      by (auto simp: list_all_iff)
    moreover have "snd ` set (drop (Suc k) (ftr ?e)) = set (drop (Suc k) (filters ?e))"
      unfolding m [symmetric] by simp
    ultimately have c3: "list_all (\<lambda>f. f \<notin> snd ` set (drop (Suc k) (ftr ?e)))
        (take (Suc k) (filters ?e))" by simp
    from c1 c2 c3 show ?thesis by (simp add: fk r a)
  qed
  from a have a': "filters ?e = map snd ?fs" by simp
  from a d have d': "distinct (map snd ?fs)" by simp
  from a' d' main show ?thesis by blast
qed

theorem filter_router_later_filters_only_witness:
  "filters chain_engine = [0, 3, 5] \<and>
   2 < length (registered_filters literal_lib chain_registrations New) \<and>
   Router (units chain_engine ! 0) = [(''^app$'', 3), (''^db$'', 5)] \<and>
   Conf (units chain_engine ! 3) = plugin_conf ''record'' ''^app$'' \<and>
   Router (units chain_engine ! 3) = [(''^db$'', 5)] \<and>
   list_all (\<lambda>f. f \<notin> snd ` set (Router (units chain_engine ! 3))) [0, 3] \<and>
   Router (units chain_engine ! 5) = []"
proof -
  note fs = chain_filters
  note t = filter_router_later_filters_only [of literal_lib chain_registrations]
  note each = t [THEN conjunct2, THEN conjunct2, rule_format]
  from t have f: "filters chain_engine = [0, 3, 5]"
    by (simp add: fs chain_engine_def)
  have l: "2 < length (registered_filters literal_lib chain_registrations New)"
    by (simp add: fs)
  from each [of 0] have k0: "Router (units chain_engine ! 0) = [(''^app$'', 3), (''^db$'', 5)]"
    by (simp add: fs chain_engine_def [symmetric] chain_ftr)
  from each [of 1] have k1: "Conf (units chain_engine ! 3) = plugin_conf ''record'' ''^app$'' \<and>
      Router (units chain_engine ! 3) = [(''^db$'', 5)] \<and>
      list_all (\<lambda>f. f \<notin> snd ` set (Router (units chain_engine ! 3))) [0, 3]"
    by (simp add: fs chain_engine_def [symmetric] chain_ftr)
  from each [of 2] have k2: "Router (units chain_engine ! 5) = []"
    by (simp add: fs chain_engine_def [symmetric] chain_ftr)
  from f l k0 k1 k2 show ?thesis by simp
qed

subsection \<open>Routing an event\<close>

lemma routes_inv_New: "routes_inv New"
  by (simp add: routes_inv_def New_def)

lemma routes_inv_routed:
  assumes inv: "routes_inv e" and ro: "routed e e'"
  shows "routes_inv e'"
proof -
  from ro have le: "length (units e) \<le> length (units e')" by (simp add: routed_def)
  from inv have b: "\<And>n r u. tr e n = Some r \<Longrightarrow> u \<in> snd ` set r \<Longrightarrow> u < length (units e)"
    and dj: "\<And>n1 n2 r1 r2. tr e n1 = Some r1 \<Longrightarrow> tr e n2 = Some r2 \<Longrightarrow> n1 \<noteq> n2 \<Longrightarrow>
        snd ` set r1 \<inter> snd ` set r2 = {}"
    unfolding routes_inv_def by blast+
  from ro consider (same) "tr e' = tr e"
    | (upd) name r new where "tr e name = Some r \<or> tr e name = None \<and> r = []"
        "tr e' = (tr e)(name \<mapsto> r @ new)"
        "new = [] \<or> (\<exists>re. new = [(re, length (units e))]) \<and> length (units e) < length (units e')"
    unfolding routed_def by blast
  then show ?thesis
  proof cases
    case same
    with inv le show ?thesis unfolding routes_inv_def by (metis less_le_trans)
  next
    case upd
    have rb: "u < length (units e)" if "u \<in> snd ` set r" for u
      using upd(1) that b by auto
    have nb: "u = length (units e) \<and> length (units e) < length (units e')"
      if "u \<in> snd ` set new" for u
      using upd(3) that by auto
    have bound: "u < length (units e')" if "tr e' n = Some q" "u \<in> snd ` set q" for n q u
    proof (cases "n = name")
      case True
      with that upd(2) have "q = r @ new" by simp
      with that(2) have "u \<in> snd ` set r \<or> u \<in> snd ` set new"
        by (simp add: image_Un)
      with rb nb le show ?thesis by (metis less_le_trans)
    next
      case False
      with that upd(2) have "tr e n = Some q" by simp
      from b [OF this that(2)] le show ?thesis by simp
    qed
    have other: "snd ` set (r @ new) \<inter> snd ` set q = {}"
      if "tr e n = Some q" "n \<noteq> name" for n q
    proof -
      have "snd ` set r \<inter> snd ` set q = {}"
        using upd(1) dj [of name r n q] that by auto
      moreover have "snd ` set new \<inter> snd ` set q = {}"
        using nb b [OF that(1)] by fastforce
      ultimately show ?thesis by auto
    qed
    have disj: "snd ` set r1 \<inter> snd ` set r2 = {}"
      if "tr e' n1 = Some r1" "tr e' n2 = Some r2" "n1 \<noteq> n2" for n1 n2 r1 r2
    proof (cases "n1 = name")
      case True
      with that upd(2) have "r1 = r @ new" "tr e n2 = Some r2" "n2 \<noteq> name" by auto
      with other show ?thesis by blast
    next
      case n1: False
      show ?thesis
      proof (cases "n2 = name")
        case True
        with that upd(2) n1 have "r2 = r @ new" "tr e n1 = Some r1" by auto
        with other [of n1 r1] n1 show ?thesis by blast
      next
        case False
        with n1 that upd(2) show ?thesis using dj [of n1 r1 n2 r2] by simp
      qed
    qed
    from bound disj show ?thesis unfolding routes_inv_def by blast
  qed
qed

lemma routes_inv_registrations: "routes_inv e \<Longrightarrow> routes_inv (registrations L rs e)"
  by (induction rs arbitrary: e) (simp_all add: routes_inv_routed register_routed)

lemma Route_Some_mem: "Route L r tag = Some u \<Longrightarrow> u \<in> snd ` set r"
  by (induction r) (auto split: if_splits)

lemma Route_first_match:
  "Route L r tag = Some u \<longleftrightarrow>
     (\<exists>pre re post. r = pre @ (re, u) # post \<and> regexp_MatchString L re tag \<and>
        list_all (\<lambda>p. \<not> regexp_MatchString L (fst p) tag) pre)"
proof (induction r)
  case Nil
  show ?case by simp
next
  case (Cons p r)
  obtain re0 u0 where p: "p = (re0, u0)" by (cases p)
  show ?case
  proof (cases "regexp_MatchString L re0 tag")
    case True
    have "(\<exists>pre re post. (re0, u0) # r = pre @ (re, u) # post \<and> regexp_MatchString L re tag \<and>
        list_all (\<lambda>p. \<not> regexp_MatchString L (fst p) tag) pre) \<longleftrightarrow> u0 = u"
    proof
      assume "\<exists>pre re post. (re0, u0) # r = pre @ (re, u) # post \<and> regexp_MatchString L re tag \<and>
        list_all (\<lambda>p. \<not> regexp_MatchString L (fst p) tag) pre"
      then obtain pre re post where e: "(re0, u0) # r = pre @ (re, u) # post"
        and n: "list_all (\<lambda>p. \<not> regexp_MatchString L (fst p) tag) pre" by blast
      show "u0 = u"
      proof (cases pre)
        case Nil
        with e show ?thesis by simp
      next
        case (Cons a pre')
        with e n True show ?thesis by auto
      qed
    next
      assume "u0 = u"
      with True have "(re0, u0) # r = [] @ (re0, u) # r \<and> regexp_MatchString L re0 tag \<and>
        list_all (\<lambda>p. \<not> regexp_MatchString L (fst p) tag) []" by simp
      then show "\<exists>pre re post. (re0, u0) # r = pre @ (re, u) # post \<and> regexp_MatchString L re tag \<and>
        list_all (\<lambda>p. \<not> regexp_MatchString L (fst p) tag) pre" by blast
    qed
    with True p show ?thesis by auto
  next
    case False
    have "(\<exists>pre re post. (re0, u0) # r = pre @ (re, u) # post \<and> regexp_MatchString L re tag \<and>
        list_all (\<lambda>p. \<not> regexp_MatchString L (fst p) tag) pre) \<longleftrightarrow>
      (\<exists>pre re post. r = pre @ (re, u) # post \<and> regexp_MatchString L re tag \<and>
        list_all (\<lambda>p. \<not> regexp_MatchString L (fst p) tag) pre)" (is "?l \<longleftrightarrow> ?r")
    proof
      assume ?l
      then obtain pre re post where e: "(re0, u0) # r = pre @ (re, u) # post"
        and m: "regexp_MatchString L re tag"
        and n: "list_all (\<lambda>p. \<not> regexp_MatchString L (fst p) tag) pre" by blast
      show ?r
      proof (cases pre)
        case Nil
        with e m False show ?thesis by simp
      next
        case (Cons a pre')
        with e n m have "r = pre' @ (re, u) # post \<and> regexp_MatchString L re tag \<and>
          list_all (\<lambda>p. \<not> regexp_MatchString L (fst p) tag) pre'" by auto
        then show ?thesis by blast
      qed
    next
      assume ?r
      then obtain pre re post where e: "r = pre @ (re, u) # post"
        and m: "regexp_MatchString L re tag"
        and n: "list_all (\<lambda>p. \<not> regexp_MatchString L (fst p) tag) pre" by blast
      with False have "(re0, u0) # r = ((re0, u0) # pre) @ (re, u) # post \<and>
          regexp_MatchString L re tag \<and>
          list_all (\<lambda>p. \<not> regexp_MatchString L (fst p) tag) ((re0, u0) # pre)" by simp
      then show ?l by blast
    qed
    with False p Cons.IH show ?thesis by simp
  qed
qed

lemma Emit_router_share:
  assumes inv: "routes_inv e" and r: "tr e n = Some r" and d: "distinct names"
  shows "filter (\<lambda>d. fst d \<in> snd ` set r) (Emit L names e ev) =
           (if n \<in> set names then offered L r ev else [])"
  using d
proof (induction names)
  case Nil
  show ?case by simp
next
  case (Cons k names)
  then have ih: "filter (\<lambda>d. fst d \<in> snd ` set r) (Emit L names e ev) =
           (if n \<in> set names then offered L r ev else [])"
    and k: "k \<notin> set names" by simp_all
  let ?here = "case tr e k of None \<Rightarrow> []
     | Some q \<Rightarrow> (case Route L q (Tag ev) of Some ins \<Rightarrow> [(ins, ev)] | None \<Rightarrow> [])"
  have here: "filter (\<lambda>d. fst d \<in> snd ` set r) ?here = (if k = n then offered L r ev else [])"
  proof (cases "k = n")
    case True
    with r show ?thesis
      by (auto simp: offered_def split: option.splits dest: Route_Some_mem)
  next
    case False
    show ?thesis
    proof (cases "tr e k")
      case None
      with False show ?thesis by simp
    next
      case (Some q)
      from inv Some r False have dj: "snd ` set q \<inter> snd ` set r = {}"
        unfolding routes_inv_def by blast
      show ?thesis
      proof (cases "Route L q (Tag ev)")
        case None
        with Some False show ?thesis by simp
      next
        case (Some u)
        from Route_Some_mem [OF this] dj have "u \<notin> snd ` set r" by blast
        with Some \<open>tr e k = Some q\<close> False show ?thesis by simp
      qed
    qed
  qed
  have "filter (\<lambda>d. fst d \<in> snd ` set r) (Emit L (k # names) e ev) =
      filter (\<lambda>d. fst d \<in> snd ` set r) ?here @
      filter (\<lambda>d. fst d \<in> snd ` set r) (Emit L names e ev)"
    by simp
  also have "\<dots> = (if n \<in> set (k # names) then offered L r ev else [])"
    unfolding here ih using k by auto
  finally show ?case .
qed

lemma Emit_deliveries:
  "d \<in> set (Emit L names e ev) \<Longrightarrow>
     \<exists>n r. n \<in> set names \<and> tr e n = Some r \<and> Route L r (Tag ev) = Some (fst d) \<and> snd d = ev"
proof (induction names)
  case Nil
  then show ?case by simp
next
  case (Cons k names)
  let ?here = "case tr e k of None \<Rightarrow> []
     | Some q \<Rightarrow> (case Route L q (Tag ev) of Some ins \<Rightarrow> [(ins, ev)] | None \<Rightarrow> [])"
  from Cons.prems have "d \<in> set ?here \<or> d \<in> set (Emit L names e ev)" by simp
  then show ?case
  proof
    assume "d \<in> set ?here"
    then have "\<exists>q. tr e k = Some q \<and> Route L q (Tag ev) = Some (fst d) \<and> snd d = ev"
      by (cases "tr e k"; cases "Route L (the (tr e k)) (Tag ev)") auto
    then obtain q where "tr e k = Some q" "Route L q (Tag ev) = Some (fst d)" "snd d = ev"
      by blast
    then have "k \<in> set (k # names) \<and> tr e k = Some q \<and>
        Route L q (Tag ev) = Some (fst d) \<and> snd d = ev" by simp
    then show ?thesis by blast
  next
    assume "d \<in> set (Emit L names e ev)"
    from Cons.IH [OF this] obtain n r where "n \<in> set names" "tr e n = Some r"
      "Route L r (Tag ev) = Some (fst d)" "snd d = ev" by blast
    then have "n \<in> set (k # names) \<and> tr e n = Some r \<and>
        Route L r (Tag ev) = Some (fst d) \<and> snd d = ev" by simp
    then show ?thesis by blast
  qed
qed

text \<open>
  Claim C3. On an engine reached by any sequence of registrations, with \<open>names\<close> any
  order in which the named routers are visited: when the filter router matches the tag,
  \<open>Filter\<close> makes one delivery, to the unit of the first matching entry of the filter
  router, and none to an output; when it does not match, every named router contributes
  the delivery to its first matching unit if it has one and nothing otherwise (so at
  most one of its units receives the event, once), and every delivery made is the first
  match of some named router.
\<close>

theorem Filter_first_match_then_outputs:
  assumes "map_range names (tr (registrations L rs New))"
  shows "(Route L (ftr (registrations L rs New)) (Tag ev) = Some u \<longrightarrow>
            Filter L names (registrations L rs New) ev = [(u, ev)] \<and>
            (\<exists>pre re post. ftr (registrations L rs New) = pre @ (re, u) # post \<and>
               regexp_MatchString L re (Tag ev) \<and>
               list_all (\<lambda>p. \<not> regexp_MatchString L (fst p) (Tag ev)) pre)) \<and>
         (Route L (ftr (registrations L rs New)) (Tag ev) = None \<longrightarrow>
            (\<forall>n r. tr (registrations L rs New) n = Some r \<longrightarrow>
               filter (\<lambda>d. fst d \<in> snd ` set r) (Filter L names (registrations L rs New) ev) =
                 (case Route L r (Tag ev) of Some ins \<Rightarrow> [(ins, ev)] | None \<Rightarrow> [])) \<and>
            (\<forall>d \<in> set (Filter L names (registrations L rs New) ev).
               \<exists>n r. tr (registrations L rs New) n = Some r \<and>
                 Route L r (Tag ev) = Some (fst d) \<and> snd d = ev))"
proof -
  let ?e = "registrations L rs New"
  have inv: "routes_inv ?e" by (rule routes_inv_registrations [OF routes_inv_New])
  from assms have d: "distinct names" and s: "set names = dom (tr ?e)"
    by (simp_all add: map_range_def)
  have a: "Filter L names ?e ev = [(u, ev)] \<and>
      (\<exists>pre re post. ftr ?e = pre @ (re, u) # post \<and> regexp_MatchString L re (Tag ev) \<and>
         list_all (\<lambda>p. \<not> regexp_MatchString L (fst p) (Tag ev)) pre)"
    if "Route L (ftr ?e) (Tag ev) = Some u"
    using that Route_first_match [of L "ftr ?e" "Tag ev" u] by (simp add: Filter_def)
  have b: "filter (\<lambda>d. fst d \<in> snd ` set r) (Filter L names ?e ev) =
      (case Route L r (Tag ev) of Some ins \<Rightarrow> [(ins, ev)] | None \<Rightarrow> [])"
    if "Route L (ftr ?e) (Tag ev) = None" "tr ?e n = Some r" for n r
  proof -
    from that(2) s have "n \<in> set names" by auto
    with Emit_router_share [OF inv that(2) d, of L ev] that(1) show ?thesis
      by (simp add: Filter_def offered_def)
  qed
  have c: "\<exists>n r. tr ?e n = Some r \<and> Route L r (Tag ev) = Some (fst d) \<and> snd d = ev"
    if "Route L (ftr ?e) (Tag ev) = None" "d \<in> set (Filter L names ?e ev)" for d
    using that Emit_deliveries [of d L names ?e ev] by (auto simp: Filter_def)
  from a b c show ?thesis by blast
qed

theorem Filter_first_match_then_outputs_witness:
  "map_range [''main'', ''audit''] (tr sample_engine) \<and>
   Filter literal_lib [''main'', ''audit''] sample_engine (event_of ''app'') =
     [(1, event_of ''app'')] \<and>
   filter (\<lambda>d. fst d \<in> snd ` set [(''^web$'', 3), (''^web$'', 5 :: nat)])
     (Filter literal_lib [''main'', ''audit''] sample_engine (event_of ''web'')) =
     [(3, event_of ''web'')]"
proof -
  have h: "map_range [''main'', ''audit''] (tr (registrations literal_lib sample_registrations New))"
    using sample_range by (simp add: sample_engine_def)
  have a: "Route literal_lib (ftr sample_engine) (Tag (event_of ''app'')) = Some 1"
    by (simp add: sample_filters literal_lib_def event_of_def)
  have w: "Route literal_lib (ftr sample_engine) (Tag (event_of ''web'')) = None"
    by (simp add: sample_filters literal_lib_def event_of_def)
  have m: "Route literal_lib [(''^web$'', 3), (''^web$'', 5)] (Tag (event_of ''web'')) = Some 3"
    by (simp add: literal_lib_def event_of_def)
  from Filter_first_match_then_outputs [OF h, of "event_of ''app''" 1] a
  have 1: "Filter literal_lib [''main'', ''audit''] sample_engine (event_of ''app'') =
     [(1, event_of ''app'')]"
    by (simp add: sample_engine_def [symmetric])
  from Filter_first_match_then_outputs [OF h, of "event_of ''web''" 0] w
  have "\<forall>n r. tr sample_engine n = Some r \<longrightarrow>
      filter (\<lambda>d. fst d \<in> snd ` set r)
        (Filter literal_lib [''main'', ''audit''] sample_engine (event_of ''web'')) =
      (case Route literal_lib r (Tag (event_of ''web'')) of Some ins \<Rightarrow> [(ins, event_of ''web'')]
       | None \<Rightarrow> [])"
    by (simp add: sample_engine_def [symmetric])
  from this [rule_format, OF sample_tr(1)] m
  have 2: "filter (\<lambda>d. fst d \<in> snd ` set [(''^web$'', 3), (''^web$'', 5 :: nat)])
     (Filter literal_lib [''main'', ''audit''] sample_engine (event_of ''web'')) =
     [(3, event_of ''web'')]"
    by simp
  from sample_range 1 2 show ?thesis by simp
qed

subsection \<open>Registration errors of an output\<close>

text \<open>
  An unknown buffer name is refused before anything is changed.
\<close>

lemma RegisterOutputPlugin_no_buffer:
  assumes "bufs e (case c ''buffer'' of Some (IString n) \<Rightarrow> n | _ \<Rightarrow> ''default'') = None"
  shows "RegisterOutputPlugin L name c e =
    (Some (NoSuchBuffer (case c ''buffer'' of Some (IString n) \<Rightarrow> n | _ \<Rightarrow> ''default'')), e)"
  using assms by (simp add: RegisterOutputPlugin_def Let_def)

text \<open>
  An expression that does not compile is refused after the unit has been created: the
  error is returned, no route is added, but the unit has its id, is in \<open>units\<close> and
  is attached to its plugin instance, and the named router exists.
\<close>

lemma bad_regexp_after_addExecUnit:
  assumes "bufs e (case c ''buffer'' of Some (IString n) \<Rightarrow> n | _ \<Rightarrow> ''default'') = Some buf"
    and "c ''type'' = Some (IString t)" and "c ''match'' = Some (IString pattern)"
    and "regexp_Compile L pattern = Inl err"
  shows "fst (RegisterOutputPlugin L name c e) = Some err \<and>
    length (units (snd (RegisterOutputPlugin L name c e))) = Suc (length (units e)) \<and>
    unitID (snd (RegisterOutputPlugin L name c e)) = unitID e + 1 \<and>
    (\<exists>i. plugins (snd (RegisterOutputPlugin L name c e)) (''out-'' @ t) = Some i \<and>
         length (units e) \<in> set (ins_units i)) \<and>
    tr (snd (RegisterOutputPlugin L name c e)) name =
      Some (case tr e name of Some r \<Rightarrow> r | None \<Rightarrow> [])"
  using assms
  by (auto simp: RegisterOutputPlugin_def Let_def assert_string_def pluginInstance_def
      addExecUnit_def NewInstance_def split: option.splits)

text \<open>
  Claim C8, on the code: registering an output whose \<open>match\<close> is \<open>(\<close> on a new
  engine returns the error of the compilation, and the engine then has the unit with id
  1, attached to the instance \<open>out-file\<close>, which has been handed to the process
  manager: the unit is registered, and starting the engine starts it.
\<close>

theorem RegisterOutputPlugin_error_leaves_unit:
  "fst (RegisterOutputPlugin literal_lib ''main'' (plugin_conf ''file'' ''('') New) =
     Some (BadRegexp ''('') \<and>
   map ID (units (snd (RegisterOutputPlugin literal_lib ''main'' (plugin_conf ''file'' ''('') New))) = [1] \<and>
   unitID (snd (RegisterOutputPlugin literal_lib ''main'' (plugin_conf ''file'' ''('') New)) = 1 \<and>
   plugins (snd (RegisterOutputPlugin literal_lib ''main'' (plugin_conf ''file'' ''('') New)) ''out-file'' =
     Some \<lparr>ins_name = ''out-file'', ins_units = [0]\<rparr> \<and>
   pm (snd (RegisterOutputPlugin literal_lib ''main'' (plugin_conf ''file'' ''('') New)) = [''fluxion-out-file''] \<and>
   tr (snd (RegisterOutputPlugin literal_lib ''main'' (plugin_conf ''file'' ''('') New)) ''main'' = Some []"
  by (simp add: engine_defs)

end
